theory Spec2Isabelle
  imports Complex_Main
begin

section \<open>Characters and character classes of Python's \<open>re\<close>\<close>

text \<open>
  A text is a list of characters. A \<^typ>\<open>char\<close> stands for the code point of the same
  number (U+0000 to U+00FF); the benchmark logs the scripts read are ASCII. On this range
  Python's \<open>\d\<close> matches the ten ASCII digits and \<open>\s\<close> matches the twelve characters of
  \<open>py_whitespace\<close>.
\<close>

definition newline :: char where
  "newline = CHR 0x0A"

definition py_digits :: string where
  "py_digits = ''0123456789''"

definition py_whitespace :: string where
  "py_whitespace = [CHR 0x09, CHR 0x0A, CHR 0x0B, CHR 0x0C, CHR 0x0D, CHR 0x1C, CHR 0x1D,
     CHR 0x1E, CHR 0x1F, CHR 0x20, CHR 0x85, CHR 0xA0]"

definition is_digit :: "char \<Rightarrow> bool" where
  "is_digit c = (c \<in> set py_digits)"

definition is_space :: "char \<Rightarrow> bool" where
  "is_space c = (c \<in> set py_whitespace)"

text \<open>\<open>[\d.]\<close>, the class both scripts use for a decimal field.\<close>

definition is_numch :: "char \<Rightarrow> bool" where
  "is_numch c = (is_digit c \<or> c = CHR ''.'')"

text \<open>
  One-character items of a pattern: a literal, a literal under \<open>re.IGNORECASE\<close> (given as
  its lower-case and upper-case form), \<open>\d\<close>, \<open>\s\<close>, \<open>[\d.]\<close>, \<open>.\<close> without and with
  \<open>re.DOTALL\<close>.
\<close>

datatype atom = Lit char | LitI char char | Digit | Space | NumCh | Dot | DotAll

fun atom_matches :: "atom \<Rightarrow> char \<Rightarrow> bool" where
  "atom_matches (Lit a) c = (c = a)"
| "atom_matches (LitI a b) c = (c = a \<or> c = b)"
| "atom_matches Digit c = is_digit c"
| "atom_matches Space c = is_space c"
| "atom_matches NumCh c = is_numch c"
| "atom_matches Dot c = (c \<noteq> newline)"
| "atom_matches DotAll c = True"

section \<open>A backtracking matcher for the patterns of the scripts\<close>

text \<open>
  The constructs the scripts' patterns use: concatenation, alternation, the greedy and the
  lazy star, a capturing group, a lookahead \<open>(?=...)\<close>, and the anchors \<open>^\<close> and \<open>$\<close> under
  \<open>re.MULTILINE\<close>, \<open>$\<close> without it, and \<open>\Z\<close>.
\<close>

datatype regex =
    Atom atom
  | Eps
  | Seq regex regex
  | Alt regex regex
  | Star regex
  | LazyStar regex
  | Group nat regex
  | Lookahead regex
  | Bol
  | EolM
  | Eol
  | EndZ

text \<open>
  A matcher state: the character just before the current position (\<open>None\<close> at the start
  of the text), the text from the current position on, and the groups captured so far.
\<close>

type_synonym mstate = "char option \<times> string \<times> (nat \<Rightarrow> string option)"

definition rest_of :: "mstate \<Rightarrow> string" where
  "rest_of st = fst (snd st)"

text \<open>
  \<open>ms r st\<close> lists every state in which a match of \<open>r\<close> begun in \<open>st\<close> can end, in the
  order in which a backtracking matcher tries them: the head is the match \<open>re\<close> reports,
  the empty list is failure. A star repeats its body only while the body consumes a
  character (as \<open>re\<close> ends a repetition whose body matched the empty string).
\<close>

function ms :: "regex \<Rightarrow> mstate \<Rightarrow> mstate list" where
  "ms (Atom a) (p, s, c) =
     (case s of [] \<Rightarrow> [] | x # xs \<Rightarrow> if atom_matches a x then [(Some x, xs, c)] else [])"
| "ms Eps st = [st]"
| "ms (Seq r1 r2) st = concat (map (ms r2) (ms r1 st))"
| "ms (Alt r1 r2) st = ms r1 st @ ms r2 st"
| "ms (Star r) st =
     concat (map (ms (Star r))
       (filter (\<lambda>st'. length (rest_of st') < length (rest_of st)) (ms r st))) @ [st]"
| "ms (LazyStar r) st =
     st # concat (map (ms (LazyStar r))
       (filter (\<lambda>st'. length (rest_of st') < length (rest_of st)) (ms r st)))"
| "ms (Group n r) (p, s, c) =
     map (\<lambda>(p', s', c'). (p', s', c'(n \<mapsto> take (length s - length s') s))) (ms r (p, s, c))"
| "ms (Lookahead r) st = (if ms r st = [] then [] else [st])"
| "ms Bol (p, s, c) = (if p = None \<or> p = Some newline then [(p, s, c)] else [])"
| "ms EolM (p, s, c) = (if s = [] \<or> hd s = newline then [(p, s, c)] else [])"
| "ms Eol (p, s, c) = (if s = [] \<or> s = [newline] then [(p, s, c)] else [])"
| "ms EndZ (p, s, c) = (if s = [] then [(p, s, c)] else [])"
  by pat_completeness auto
termination
  by (relation "measures [\<lambda>(r, st). size r, \<lambda>(r, st). length (rest_of st)]") auto


definition prev_of :: "mstate \<Rightarrow> char option" where
  "prev_of st = fst st"

definition caps_of :: "mstate \<Rightarrow> nat \<Rightarrow> string option" where
  "caps_of st = snd (snd st)"

text \<open>Concatenation of several patterns, a literal string, and \<open>r+\<close> as \<open>r r*\<close>.\<close>

definition seqs :: "regex list \<Rightarrow> regex" where
  "seqs rs = foldr Seq rs Eps"

definition lit :: "string \<Rightarrow> regex" where
  "lit s = seqs (map (\<lambda>c. Atom (Lit c)) s)"

definition Plus :: "regex \<Rightarrow> regex" where
  "Plus r = Seq r (Star r)"


subsection \<open>\<open>re.search\<close>, \<open>re.finditer\<close>, \<open>re.findall\<close>\<close>

text \<open>
  \<open>re.search\<close> tries the start positions from left to right and returns the first match;
  the result is the final matcher state (its captured groups and the text left after the
  match), \<open>None\<close> when no position matches.
\<close>

fun search_from :: "regex \<Rightarrow> char option \<Rightarrow> string \<Rightarrow> mstate option" where
  "search_from r p [] = (case ms r (p, [], Map.empty) of [] \<Rightarrow> None | m # _ \<Rightarrow> Some m)"
| "search_from r p (x # xs) =
     (case ms r (p, x # xs, Map.empty) of
        [] \<Rightarrow> search_from r (Some x) xs
      | m # _ \<Rightarrow> Some m)"

definition re_search :: "regex \<Rightarrow> string \<Rightarrow> mstate option" where
  "re_search r text = search_from r None text"

text \<open>
  \<open>finditer\<close> resumes the search where the previous match ended. After a match that
  consumed nothing the model moves one character on; \<open>re\<close> has a finer rule there, and no
  pattern of the scripts can match the empty string.
\<close>

function finditer_from :: "regex \<Rightarrow> char option \<Rightarrow> string \<Rightarrow> mstate list" where
  "finditer_from r p s =
     (case ms r (p, s, Map.empty) of
        [] \<Rightarrow> (case s of [] \<Rightarrow> [] | x # xs \<Rightarrow> finditer_from r (Some x) xs)
      | m # _ \<Rightarrow>
          (if length (rest_of m) < length s
           then m # finditer_from r (prev_of m) (rest_of m)
           else m # (case s of [] \<Rightarrow> [] | x # xs \<Rightarrow> finditer_from r (Some x) xs)))"
  by pat_completeness auto
termination
  by (relation "measure (\<lambda>(r, p, s). length s)") auto

definition re_finditer :: "regex \<Rightarrow> string \<Rightarrow> mstate list" where
  "re_finditer r text = finditer_from r None text"

text \<open>\<open>m.group(n)\<close>; Python gives \<open>None\<close> for a group that took no part in the match.\<close>

definition group :: "mstate \<Rightarrow> nat \<Rightarrow> string option" where
  "group m n = caps_of m n"

text \<open>
  \<open>findall\<close> returns, per match, the groups of the pattern (a string for a pattern with
  one group, a tuple for one with several), with the empty string for a group that took no
  part.
\<close>

definition group_str :: "mstate \<Rightarrow> nat \<Rightarrow> string" where
  "group_str m n = (case group m n of None \<Rightarrow> [] | Some g \<Rightarrow> g)"


definition re_findall3 :: "regex \<Rightarrow> string \<Rightarrow> (string \<times> string \<times> string) list" where
  "re_findall3 r text =
     map (\<lambda>m. (group_str m 1, group_str m 2, group_str m 3)) (re_finditer r text)"

section \<open>Python's \<open>int\<close> and \<open>float\<close> on the captured fields\<close>

datatype py_error = ValueError | ZeroDivisionError | TypeError

definition digit_val :: "char \<Rightarrow> nat" where
  "digit_val c = of_char c - 48"

definition digits_val :: "string \<Rightarrow> nat" where
  "digits_val s = foldl (\<lambda>n c. 10 * n + digit_val c) 0 s"

text \<open>
  \<open>int(s)\<close> and \<open>float(s)\<close> are modelled on the strings a group can capture, strings over
  the digits and the dot: \<open>int\<close> wants one digit at least and digits only, \<open>float\<close> wants
  one digit at least and one dot at most; both raise \<open>ValueError\<close> otherwise. (Signs,
  exponents, blanks and underscores, which Python accepts too, never reach them.) A float
  is modelled by the rational number its decimal notation denotes: the rounding to a
  binary64 value and its overflow are not modelled.
\<close>

definition py_int :: "string \<Rightarrow> py_error + int" where
  "py_int s = (if s \<noteq> [] \<and> list_all is_digit s then Inr (int (digits_val s)) else Inl ValueError)"

definition py_float :: "string \<Rightarrow> py_error + rat" where
  "py_float s =
     (let ip = takeWhile is_digit s; r = dropWhile is_digit s in
      if r = [] then (if ip = [] then Inl ValueError else Inr (of_nat (digits_val ip)))
      else if hd r = CHR ''.'' \<and> list_all is_digit (tl r) \<and> (ip \<noteq> [] \<or> tl r \<noteq> [])
      then Inr (of_nat (digits_val (ip @ tl r)) / 10 ^ length (tl r))
      else Inl ValueError)"


section \<open>\<open>charts.py\<close>: \<open>parse_mylib_results\<close>\<close>

text \<open>
  A parsed table (a \<open>DataFrame\<close>) is the list of its rows in order; the parsers are
  functions of the text of the file they read.
\<close>

record mylib_row =
  Threads :: int
  ChunkMB :: rat
  Throughput :: rat

text \<open>
  \<^verbatim>\<open>===\s*ENCRYPTION THREAD/CHUNK SWEEP\s*===(.*?)(?===|\Z)\<close> under \<open>re.DOTALL\<close>, and the
  same for \<open>DECRYPTION\<close>: the lookahead \<open>(?=\<close> ... \<open>)\<close> holds the alternatives \<open>==\<close> and \<open>\Z\<close>.
\<close>

definition mylib_section_pat :: "string \<Rightarrow> regex" where
  "mylib_section_pat name =
     seqs [lit ''==='', Star (Atom Space), lit name, Star (Atom Space), lit ''==='',
           Group 1 (LazyStar (Atom DotAll)), Lookahead (Alt (lit ''=='') EndZ)]"

definition enc_name :: string where
  "enc_name = ''ENCRYPTION THREAD/CHUNK SWEEP''"

definition dec_name :: string where
  "dec_name = ''DECRYPTION THREAD/CHUNK SWEEP''"

text \<open>\<^verbatim>\<open>(\d+)\s*\|\s*([\d.]+)\s*\|\s*([\d.]+)\<close>\<close>

definition mylib_row_pat :: regex where
  "mylib_row_pat =
     seqs [Group 1 (Plus (Atom Digit)), Star (Atom Space), Atom (Lit CHR ''|''),
           Star (Atom Space), Group 2 (Plus (Atom NumCh)), Star (Atom Space),
           Atom (Lit CHR ''|''), Star (Atom Space), Group 3 (Plus (Atom NumCh))]"

text \<open>The body of the loop of \<open>extract\<close>: one row from the three captured strings.\<close>

definition mylib_row_of :: "string \<times> string \<times> string \<Rightarrow> py_error + mylib_row" where
  "mylib_row_of g =
     (case g of (th, ch, thr) \<Rightarrow>
        (case py_int th of Inl e \<Rightarrow> Inl e | Inr t \<Rightarrow>
        (case py_float ch of Inl e \<Rightarrow> Inl e | Inr c \<Rightarrow>
        (case py_float thr of Inl e \<Rightarrow> Inl e | Inr v \<Rightarrow>
           Inr \<lparr>Threads = t, ChunkMB = c, Throughput = v\<rparr>))))"

text \<open>A loop that appends \<open>f x\<close> for each \<open>x\<close> and stops at the first exception.\<close>

primrec collect :: "('a \<Rightarrow> py_error + 'b) \<Rightarrow> 'a list \<Rightarrow> py_error + 'b list" where
  "collect f [] = Inr []"
| "collect f (x # xs) =
     (case f x of Inl e \<Rightarrow> Inl e
      | Inr y \<Rightarrow> (case collect f xs of Inl e \<Rightarrow> Inl e | Inr ys \<Rightarrow> Inr (y # ys)))"

definition "extract" :: "mstate option \<Rightarrow> py_error + mylib_row list" where
  "extract sec =
     (case sec of
        None \<Rightarrow> Inr []
      | Some m \<Rightarrow>
          (case group m 1 of
             None \<Rightarrow> Inl TypeError
           | Some body \<Rightarrow> collect mylib_row_of (re_findall3 mylib_row_pat body)))"

definition parse_mylib_results :: "string \<Rightarrow> py_error + mylib_row list \<times> mylib_row list" where
  "parse_mylib_results text =
     (let enc_sec = re_search (mylib_section_pat enc_name) text;
          dec_sec = re_search (mylib_section_pat dec_name) text
      in case extract enc_sec of Inl e \<Rightarrow> Inl e
         | Inr enc_df \<Rightarrow>
             (case extract dec_sec of Inl e \<Rightarrow> Inl e
              | Inr dec_df \<Rightarrow> Inr (enc_df, dec_df)))"

section \<open>\<open>test_parser.py\<close>: \<open>parse_test_results\<close>\<close>

record test_row =
  TThreads :: int
  TChunkMB :: int
  TThroughput :: rat

text \<open>
  \<^verbatim>\<open>=== ENCRYPTION THREAD/CHUNK SWEEP ===(.*?)(?===|$)\<close> under \<open>re.DOTALL\<close> (without
  \<open>re.MULTILINE\<close>).
\<close>

definition test_section_pat :: "string \<Rightarrow> regex" where
  "test_section_pat name =
     seqs [lit (''=== '' @ name @ '' ===''),
           Group 1 (LazyStar (Atom DotAll)), Lookahead (Alt (lit ''=='') Eol)]"

text \<open>\<^verbatim>\<open>(\d+)\s*\|\s*(\d+)\s*\|\s*([\d.]+)\<close>\<close>

definition test_row_pat :: regex where
  "test_row_pat =
     seqs [Group 1 (Plus (Atom Digit)), Star (Atom Space), Atom (Lit CHR ''|''),
           Star (Atom Space), Group 2 (Plus (Atom Digit)), Star (Atom Space),
           Atom (Lit CHR ''|''), Star (Atom Space), Group 3 (Plus (Atom NumCh))]"

definition test_row_of :: "string \<times> string \<times> string \<Rightarrow> py_error + test_row" where
  "test_row_of g =
     (case g of (th, ch, thr) \<Rightarrow>
        (case py_int th of Inl e \<Rightarrow> Inl e | Inr t \<Rightarrow>
        (case py_int ch of Inl e \<Rightarrow> Inl e | Inr c \<Rightarrow>
        (case py_float thr of Inl e \<Rightarrow> Inl e | Inr v \<Rightarrow>
           Inr \<lparr>TThreads = t, TChunkMB = c, TThroughput = v\<rparr>))))"

text \<open>\<open>extract_data\<close> takes the section text, the empty string when the marker was not found.\<close>

definition extract_data :: "string \<Rightarrow> py_error + test_row list" where
  "extract_data section_text =
     (if section_text = [] then Inr []
      else collect test_row_of (re_findall3 test_row_pat section_text))"

definition section_text_of :: "mstate option \<Rightarrow> py_error + string" where
  "section_text_of sec =
     (case sec of
        None \<Rightarrow> Inr []
      | Some m \<Rightarrow> (case group m 1 of None \<Rightarrow> Inl TypeError | Some body \<Rightarrow> Inr body))"

definition parse_test_results :: "string \<Rightarrow> py_error + test_row list \<times> test_row list" where
  "parse_test_results content =
     (let encrypt_section = re_search (test_section_pat enc_name) content;
          decrypt_section = re_search (test_section_pat dec_name) content
      in case section_text_of encrypt_section of Inl e \<Rightarrow> Inl e
         | Inr enc_text \<Rightarrow>
        (case extract_data enc_text of Inl e \<Rightarrow> Inl e
         | Inr encrypt_data \<Rightarrow>
        (case section_text_of decrypt_section of Inl e \<Rightarrow> Inl e
         | Inr dec_text \<Rightarrow>
        (case extract_data dec_text of Inl e \<Rightarrow> Inl e
         | Inr decrypt_data \<Rightarrow> Inr (encrypt_data, decrypt_data)))))"


section \<open>\<open>charts.py\<close>: \<open>parse_openssl_results\<close>\<close>


















section \<open>Texts, lines and deterministic scanners\<close>

text \<open>
  The properties below are stated over texts built from lines, and proved through
  scanners that read a text once from left to right; each scanner is shown to agree
  with the backtracking matcher on the pattern it stands for.
\<close>

definition join_lines :: "string list \<Rightarrow> string" where
  "join_lines ls = (case ls of [] \<Rightarrow> [] | l # ls' \<Rightarrow> l @ concat (map (\<lambda>x. newline # x) ls'))"

text \<open>\<open>strip w s\<close> removes the prefix \<open>w\<close> from \<open>s\<close>; \<open>occurs w s\<close>: \<open>w\<close> is a substring of \<open>s\<close>.\<close>

primrec strip :: "string \<Rightarrow> string \<Rightarrow> string option" where
  "strip [] s = Some s"
| "strip (a # w) s = (case s of [] \<Rightarrow> None | x # xs \<Rightarrow> if x = a then strip w xs else None)"

fun occurs :: "string \<Rightarrow> string \<Rightarrow> bool" where
  "occurs w [] = (w = [])"
| "occurs w (x # xs) = (strip w (x # xs) \<noteq> None \<or> occurs w xs)"

text \<open>
  The state after the matcher has consumed the string \<open>w\<close>: the character before the
  position is the last one of \<open>w\<close>.
\<close>

definition lastp :: "char option \<Rightarrow> string \<Rightarrow> char option" where
  "lastp p w = (if w = [] then p else Some (last w))"

text \<open>
  One match attempt of a row pattern at the start of \<open>s\<close>, every repetition taking all it
  can: the three fields and the text after the match. \<open>C\<close> is the class of the chunk
  field, \<open>[\d.]\<close> in \<open>charts.py\<close> and \<open>\d\<close> in \<open>test_parser.py\<close>.
\<close>

definition row_at :: "(char \<Rightarrow> bool) \<Rightarrow> string \<Rightarrow> ((string \<times> string \<times> string) \<times> string) option" where
  "row_at C s =
     (let th = takeWhile is_digit s in
      if th = [] then None
      else case strip ''|'' (dropWhile is_space (dropWhile is_digit s)) of
        None \<Rightarrow> None
      | Some s2 \<Rightarrow>
         (let s3 = dropWhile is_space s2; ch = takeWhile C s3 in
          if ch = [] then None
          else case strip ''|'' (dropWhile is_space (dropWhile C s3)) of
            None \<Rightarrow> None
          | Some s5 \<Rightarrow>
             (let s6 = dropWhile is_space s5; thr = takeWhile is_numch s6 in
              if thr = [] then None
              else Some ((th, ch, thr), dropWhile is_numch s6))))"

text \<open>The two row patterns differ in the class of the second group only.\<close>

definition row_pat_of :: "atom \<Rightarrow> regex" where
  "row_pat_of ca =
     seqs [Group 1 (Plus (Atom Digit)), Star (Atom Space), Atom (Lit CHR ''|''),
           Star (Atom Space), Group 2 (Plus (Atom ca)), Star (Atom Space),
           Atom (Lit CHR ''|''), Star (Atom Space), Group 3 (Plus (Atom NumCh))]"

definition rows_from :: "regex \<Rightarrow> char option \<Rightarrow> string \<Rightarrow> (string \<times> string \<times> string) list" where
  "rows_from r p s = map (\<lambda>m. (group_str m 1, group_str m 2, group_str m 3)) (finditer_from r p s)"

text \<open>\<open>nlp s\<close>: the first character of \<open>s\<close> after leading whitespace is not a pipe.\<close>

definition pipe_free :: "string \<Rightarrow> bool" where
  "pipe_free s = (CHR ''|'' \<notin> set s)"

definition nlp :: "string \<Rightarrow> bool" where
  "nlp s = (case dropWhile is_space s of [] \<Rightarrow> True | x # _ \<Rightarrow> x \<noteq> CHR ''|'')"

text \<open>\<open>yields r t R\<close>: \<open>findall\<close> of \<open>r\<close> on \<open>t\<close> gives \<open>R\<close>, whatever precedes \<open>t\<close>.\<close>

definition yields :: "regex \<Rightarrow> string \<Rightarrow> (string \<times> string \<times> string) list \<Rightarrow> bool" where
  "yields r t R = (\<forall>p. rows_from r p t = R)"

subsection \<open>Lines of a section\<close>







text \<open>What \<open>re.search\<close> captures in group 1: \<open>None\<close> when the pattern is not found.\<close>

definition section_body :: "regex \<Rightarrow> string \<Rightarrow> string option option" where
  "section_body r s = map_option (\<lambda>m. group m 1) (re_search r s)"

subsection \<open>Section markers\<close>

text \<open>
  One match attempt of the marker of \<open>charts.py\<close> at the start of \<open>s\<close> (three equal
  signs, blanks, the name, blanks, three equal signs) and of the literal marker of
  \<open>test_parser.py\<close>: the text after the marker.
\<close>

definition marker_at :: "string \<Rightarrow> string \<Rightarrow> string option" where
  "marker_at name s =
     (case strip ''==='' s of None \<Rightarrow> None
      | Some s1 \<Rightarrow>
          (case strip name (dropWhile is_space s1) of None \<Rightarrow> None
           | Some s2 \<Rightarrow> strip ''==='' (dropWhile is_space s2)))"

definition test_marker_at :: "string \<Rightarrow> string \<Rightarrow> string option" where
  "test_marker_at name s = strip (''=== '' @ name @ '' ==='') s"

text \<open>
  The text up to the first position where \<open>stop\<close> holds of what follows, or up to the
  end: what a lazy \<open>(.*?)\<close> captures before a lookahead.
\<close>

fun upto_stop :: "(string \<Rightarrow> bool) \<Rightarrow> string \<Rightarrow> string" where
  "upto_stop stop [] = []"
| "upto_stop stop (x # xs) = (if stop (x # xs) then [] else x # upto_stop stop xs)"

definition stop_eq :: "string \<Rightarrow> bool" where
  "stop_eq s = (strip ''=='' s \<noteq> None)"

definition stop_eq_eol :: "string \<Rightarrow> bool" where
  "stop_eq_eol s = (strip ''=='' s \<noteq> None \<or> s = [newline])"

text \<open>The first position, from the left, where a marker matches, and the body after it.\<close>

fun find_section :: "(string \<Rightarrow> string option) \<Rightarrow> (string \<Rightarrow> string) \<Rightarrow> string \<Rightarrow> string option" where
  "find_section M B [] = map_option B (M [])"
| "find_section M B (x # xs) =
     (case M (x # xs) of Some r \<Rightarrow> Some (B r) | None \<Rightarrow> find_section M B xs)"

text \<open>The marker as both scripts' example input writes it.\<close>

definition marker :: "string \<Rightarrow> string" where
  "marker name = ''=== '' @ name @ '' ===''"

text \<open>The conditions on a section name that the proofs use; both names meet them.\<close>

definition good_name :: "string \<Rightarrow> bool" where
  "good_name name = (name \<noteq> [] \<and> \<not> is_space (hd name) \<and> CHR ''='' \<notin> set name)"

subsection \<open>Well-formed sections\<close>

text \<open>A field is a number when \<open>float\<close> accepts it.\<close>

definition is_number :: "string \<Rightarrow> bool" where
  "is_number s = (case py_float s of Inl _ \<Rightarrow> False | Inr _ \<Rightarrow> True)"






text \<open>
  A number as a field writes it: digits, or digits, a dot and digits (one side of the dot
  may be empty), with the value the notation stands for.
\<close>

datatype num = IntN string | DecN string string

fun render_num :: "num \<Rightarrow> string" where
  "render_num (IntN ds) = ds"
| "render_num (DecN ip fp) = ip @ CHR ''.'' # fp"

fun wf_num :: "num \<Rightarrow> bool" where
  "wf_num (IntN ds) = (ds \<noteq> [] \<and> list_all is_digit ds)"
| "wf_num (DecN ip fp) = (list_all is_digit ip \<and> list_all is_digit fp \<and> (ip \<noteq> [] \<or> fp \<noteq> []))"

fun num_value :: "num \<Rightarrow> rat" where
  "num_value (IntN ds) = of_nat (digits_val ds)"
| "num_value (DecN ip fp) = of_nat (digits_val ip) + of_nat (digits_val fp) / 10 ^ length fp"


subsection \<open>The table of one operation\<close>





subsection \<open>Comparing the two parsers\<close>

text \<open>
  The same row in both column representations: \<open>test_parser.py\<close> holds the chunk size
  as an integer, \<open>charts.py\<close> as a float.
\<close>

definition same_row :: "mylib_row \<Rightarrow> test_row \<Rightarrow> bool" where
  "same_row r t =
     (Threads r = TThreads t \<and> ChunkMB r = of_int (TChunkMB t) \<and> Throughput r = TThroughput t)"

text \<open>
  \<open>canonical name inp\<close>: the first place of \<open>inp\<close>, from the left, where the marker pattern
  of \<open>charts.py\<close> matches, if there is one, holds the marker with one blank on each side of
  the name, as \<open>test_parser.py\<close> wants it.
\<close>

fun canonical :: "string \<Rightarrow> string \<Rightarrow> bool" where
  "canonical name [] = (marker_at name [] = None \<or> test_marker_at name [] \<noteq> None)"
| "canonical name (x # xs) =
     (case marker_at name (x # xs) of
        Some r \<Rightarrow> test_marker_at name (x # xs) \<noteq> None
      | None \<Rightarrow> canonical name xs)"

text \<open>\<open>integral_chunks name inp\<close>: no chunk field that \<open>charts.py\<close> finds in the section has a dot.\<close>

definition integral_chunks :: "string \<Rightarrow> string \<Rightarrow> bool" where
  "integral_chunks name inp =
     (case section_body (mylib_section_pat name) inp of
        Some (Some body) \<Rightarrow>
          list_all (\<lambda>g. CHR ''.'' \<notin> set (fst (snd g))) (re_findall3 mylib_row_pat body)
      | _ \<Rightarrow> True)"

section \<open>The matcher on the row patterns\<close>

text \<open>
  A greedy repetition of a character class, followed by a pattern that cannot begin with
  a character of the class, has one way to match: it takes all it can.
\<close>


declare ms.simps(5,6) [simp del]

declare finditer_from.simps [simp del]

lemma ms_seqs_Cons: "ms (seqs (r # rs)) st = concat (map (ms (seqs rs)) (ms r st))"
  by (simp add: seqs_def)

lemma ms_seqs_Nil: "ms (seqs []) st = [st]"
  by (simp add: seqs_def)

lemma ms_star_atom:
  "ms (Star (Atom a)) (p, s, c) =
     (case s of [] \<Rightarrow> [(p, [], c)]
      | x # xs \<Rightarrow> if atom_matches a x then ms (Star (Atom a)) (Some x, xs, c) @ [(p, s, c)]
                  else [(p, s, c)])"
  by (subst ms.simps(5)) (simp add: rest_of_def split: list.splits)

lemma ms_lazystar_atom:
  "ms (LazyStar (Atom a)) (p, s, c) =
     (case s of [] \<Rightarrow> [(p, [], c)]
      | x # xs \<Rightarrow> if atom_matches a x then (p, s, c) # ms (LazyStar (Atom a)) (Some x, xs, c)
                  else [(p, s, c)])"
  by (subst ms.simps(6)) (simp add: rest_of_def split: list.splits)

lemma lastp_simps [simp]: "lastp p [] = p" "lastp p (x # xs) = lastp (Some x) xs"
  by (auto simp: lastp_def)

lemma star_atom_then:
  assumes "\<And>p x xs c. atom_matches a x \<Longrightarrow> k (p, x # xs, c) = []"
  shows "concat (map k (ms (Star (Atom a)) (p, s, c))) =
         k (lastp p (takeWhile (atom_matches a) s), dropWhile (atom_matches a) s, c)"
proof (induction s arbitrary: p)
  case Nil
  show ?case by (subst ms_star_atom) simp
next
  case (Cons x xs)
  show ?case
    by (subst ms_star_atom) (simp add: Cons assms)
qed

lemma star_atom_hd:
  "\<exists>tl. ms (Star (Atom a)) (p, s, c) =
     (lastp p (takeWhile (atom_matches a) s), dropWhile (atom_matches a) s, c) # tl"
proof (induction s arbitrary: p)
  case Nil
  show ?case by (subst ms_star_atom) simp
next
  case (Cons x xs)
  show ?case
    using Cons[of "Some x"] by (subst ms_star_atom) auto
qed

lemma ms_lit: "ms (lit w) (p, s, c) = (case strip w s of None \<Rightarrow> [] | Some r \<Rightarrow> [(lastp p w, r, c)])"
proof (induction w arbitrary: p s)
  case Nil
  show ?case by (simp add: lit_def seqs_def)
next
  case (Cons a w)
  have "ms (lit (a # w)) (p, s, c) = concat (map (ms (lit w)) (ms (Atom (Lit a)) (p, s, c)))"
    by (simp add: lit_def seqs_def)
  then show ?case by (auto simp: Cons split: list.splits option.splits)
qed


lemma take_takeWhile: "take (length s - length (dropWhile P s)) s = takeWhile P s"
proof -
  have "length (takeWhile P s) + length (dropWhile P s) = length s"
    by (metis length_append takeWhile_dropWhile_id)
  then have "length s - length (dropWhile P s) = length (takeWhile P s)" by simp
  then show ?thesis by (metis takeWhile_eq_take)
qed

lemma seqs_star:
  assumes "\<And>p x xs c. atom_matches a x \<Longrightarrow> ms (seqs rs) (p, x # xs, c) = []"
  shows "ms (seqs (Star (Atom a) # rs)) (p, s, c) =
         ms (seqs rs) (lastp p (takeWhile (atom_matches a) s), dropWhile (atom_matches a) s, c)"
  unfolding ms_seqs_Cons by (rule star_atom_then) (rule assms)

lemma seqs_atom_lit:
  "ms (seqs (Atom (Lit ch) # rs)) (p, s, c) =
     (case strip [ch] s of None \<Rightarrow> [] | Some r \<Rightarrow> ms (seqs rs) (Some ch, r, c))"
  by (auto simp: ms_seqs_Cons split: list.splits)

lemma ms_group_plus_Nil: "ms (Plus (Atom a)) (p, [], c) = []"
  by (simp add: Plus_def)

lemma ms_group_plus_Cons:
  "ms (Plus (Atom a)) (p, x # xs, c) =
     (if atom_matches a x then ms (Star (Atom a)) (Some x, xs, c) else [])"
  by (simp add: Plus_def)

lemma seqs_group_plus:
  assumes "\<And>p x xs c. atom_matches a x \<Longrightarrow> ms (seqs rs) (p, x # xs, c) = []"
  shows "ms (seqs (Group n (Plus (Atom a)) # rs)) (p, s, c) =
         (if takeWhile (atom_matches a) s = [] then []
          else ms (seqs rs) (lastp p (takeWhile (atom_matches a) s),
                 dropWhile (atom_matches a) s, c(n \<mapsto> takeWhile (atom_matches a) s)))"
proof (cases s)
  case Nil
  then show ?thesis by (simp add: ms_seqs_Cons ms_group_plus_Nil)
next
  case (Cons x xs)
  show ?thesis
  proof (cases "atom_matches a x")
    case False
    then show ?thesis by (simp add: Cons ms_seqs_Cons ms_group_plus_Cons)
  next
    case True
    let ?P = "atom_matches a"
    let ?f = "\<lambda>(p', s', c'). (p', s', c'(n \<mapsto> take (Suc (length xs) - length s') (x # xs)))"
    let ?k = "\<lambda>st. ms (seqs rs) (?f st)"
    have rej: "\<And>p y ys c. ?P y \<Longrightarrow> ?k (p, y # ys, c) = []"
      by (simp add: assms)
    have "ms (seqs (Group n (Plus (Atom a)) # rs)) (p, s, c) =
          concat (map ?k (ms (Star (Atom a)) (Some x, xs, c)))"
      by (simp add: Cons True ms_seqs_Cons ms_group_plus_Cons comp_def)
    also have "\<dots> = ?k (lastp (Some x) (takeWhile ?P xs), dropWhile ?P xs, c)"
      by (rule star_atom_then) (rule rej)
    also have "\<dots> = ms (seqs rs) (lastp p (takeWhile ?P s), dropWhile ?P s, c(n \<mapsto> takeWhile ?P s))"
      using take_takeWhile[of s ?P] by (simp add: Cons True)
    finally show ?thesis by (simp add: Cons True)
  qed
qed

lemma last_group_plus:
  "ms (seqs [Group n (Plus (Atom a))]) (p, s, c) = [] \<and> takeWhile (atom_matches a) s = [] \<or>
   (\<exists>tl. ms (seqs [Group n (Plus (Atom a))]) (p, s, c) =
      (lastp p (takeWhile (atom_matches a) s), dropWhile (atom_matches a) s,
       c(n \<mapsto> takeWhile (atom_matches a) s)) # tl) \<and> takeWhile (atom_matches a) s \<noteq> []"
proof (cases s)
  case Nil
  then show ?thesis by (simp add: ms_seqs_Cons ms_seqs_Nil ms_group_plus_Nil)
next
  case (Cons x xs)
  show ?thesis
  proof (cases "atom_matches a x")
    case False
    then show ?thesis by (simp add: Cons ms_seqs_Cons ms_seqs_Nil ms_group_plus_Cons)
  next
    case True
    obtain tl where tl: "ms (Star (Atom a)) (Some x, xs, c) =
      (lastp (Some x) (takeWhile (atom_matches a) xs), dropWhile (atom_matches a) xs, c) # tl"
      using star_atom_hd by blast
    show ?thesis
      using take_takeWhile[of s "atom_matches a"]
      by (simp add: Cons True ms_seqs_Cons ms_seqs_Nil ms_group_plus_Cons tl)
  qed
qed

lemma reject_sp_pipe:
  "\<not> is_space x \<Longrightarrow> x \<noteq> CHR ''|'' \<Longrightarrow>
   ms (seqs (Star (Atom Space) # Atom (Lit CHR ''|'') # rs)) (p, x # xs, c) = []"
  by (subst ms_seqs_Cons, subst ms_star_atom) (simp add: ms_seqs_Cons)

lemma reject_pipe:
  "x \<noteq> CHR ''|'' \<Longrightarrow> ms (seqs (Atom (Lit CHR ''|'') # rs)) (p, x # xs, c) = []"
  by (simp add: ms_seqs_Cons)

lemma reject_group:
  "\<not> atom_matches a x \<Longrightarrow> ms (seqs (Group n (Plus (Atom a)) # rs)) (p, x # xs, c) = []"
  by (simp add: ms_seqs_Cons ms_group_plus_Cons)



lemma test_row_pat_eq: "test_row_pat = row_pat_of Digit"
  by (simp add: test_row_pat_def row_pat_of_def)

lemma digit_not_space: "is_digit x \<Longrightarrow> \<not> is_space x"
  by (auto simp: is_digit_def is_space_def py_digits_def py_whitespace_def)

lemma digit_not_pipe: "is_digit x \<Longrightarrow> x \<noteq> CHR ''|''"
  by (auto simp: is_digit_def py_digits_def)

lemma numch_not_space: "is_numch x \<Longrightarrow> \<not> is_space x"
  by (auto simp: is_numch_def is_digit_def is_space_def py_digits_def py_whitespace_def)

lemma numch_not_pipe: "is_numch x \<Longrightarrow> x \<noteq> CHR ''|''"
  by (auto simp: is_numch_def is_digit_def py_digits_def)

lemma space_not_pipe: "is_space x \<Longrightarrow> x \<noteq> CHR ''|''"
  by (auto simp: is_space_def py_whitespace_def)

lemma space_not_numch: "is_space x \<Longrightarrow> \<not> is_numch x"
  using numch_not_space by blast

lemma digit_numch: "is_digit x \<Longrightarrow> is_numch x"
  by (simp add: is_numch_def)

lemma atom_matches_fun [simp]:
  "atom_matches Digit = is_digit" "atom_matches Space = is_space" "atom_matches NumCh = is_numch"
  by (auto simp: fun_eq_iff)

lemma row_ms:
  assumes C: "\<And>x. atom_matches ca x \<Longrightarrow> is_numch x"
  shows "case row_at (atom_matches ca) s of
           None \<Rightarrow> ms (row_pat_of ca) (p, s, c) = []
         | Some ((th, ch, thr), rest) \<Rightarrow>
             (\<exists>p' tl. ms (row_pat_of ca) (p, s, c) =
                (p', rest, c(1 \<mapsto> th, 2 \<mapsto> ch, 3 \<mapsto> thr)) # tl)"
proof -
  let ?G3 = "Group 3 (Plus (Atom NumCh))"
  let ?K7 = "[Star (Atom Space), ?G3]"
  let ?K6 = "Atom (Lit CHR ''|'') # ?K7"
  let ?K5 = "Star (Atom Space) # ?K6"
  let ?K4 = "Group 2 (Plus (Atom ca)) # ?K5"
  let ?K3 = "Star (Atom Space) # ?K4"
  let ?K2 = "Atom (Lit CHR ''|'') # ?K3"
  let ?K1 = "Star (Atom Space) # ?K2"
  have Cs: "\<And>x. atom_matches ca x \<Longrightarrow> \<not> is_space x" and Cp: "\<And>x. atom_matches ca x \<Longrightarrow> x \<noteq> CHR ''|''"
    using C numch_not_space numch_not_pipe by blast+
  have Cs': "\<And>x. is_space x \<Longrightarrow> \<not> atom_matches ca x"
    using Cs by blast
  have e1: "\<And>p s c. ms (seqs (Group 1 (Plus (Atom Digit)) # ?K1)) (p, s, c) =
         (if takeWhile is_digit s = [] then []
          else ms (seqs ?K1) (lastp p (takeWhile is_digit s), dropWhile is_digit s,
                 c(1 \<mapsto> takeWhile is_digit s)))"
    using seqs_group_plus[where a = Digit and rs = ?K1 and n = 1]
    by (simp add: reject_sp_pipe digit_not_space digit_not_pipe)
  have e2: "\<And>p s c rs. ms (seqs (Star (Atom Space) # Atom (Lit CHR ''|'') # rs)) (p, s, c) =
         ms (seqs (Atom (Lit CHR ''|'') # rs)) (lastp p (takeWhile is_space s), dropWhile is_space s, c)"
    using seqs_star[where a = Space]
    by (simp add: reject_pipe space_not_pipe)
  have e4: "\<And>p s c. ms (seqs ?K3) (p, s, c) =
         ms (seqs ?K4) (lastp p (takeWhile is_space s), dropWhile is_space s, c)"
    using seqs_star[where a = Space and rs = ?K4] Cs'
    by (simp add: reject_group)
  have e5: "\<And>p s c. ms (seqs ?K4) (p, s, c) =
         (if takeWhile (atom_matches ca) s = [] then []
          else ms (seqs ?K5) (lastp p (takeWhile (atom_matches ca) s), dropWhile (atom_matches ca) s,
                 c(2 \<mapsto> takeWhile (atom_matches ca) s)))"
    using seqs_group_plus[where a = ca and rs = ?K5 and n = 2]
    by (simp add: reject_sp_pipe Cs Cp)
  have e8: "\<And>p s c. ms (seqs ?K7) (p, s, c) =
         ms (seqs [?G3]) (lastp p (takeWhile is_space s), dropWhile is_space s, c)"
    using seqs_star[where a = Space and rs = "[?G3]"] space_not_numch
    by (simp add: reject_group)
  have e9a: "ms (seqs [?G3]) (p, s, c) = []" if "takeWhile is_numch s = []" for p s c
    using that last_group_plus[where a = NumCh and n = 3 and p = p and s = s and c = c] by auto
  have e9b: "\<exists>p' tl. ms (seqs [?G3]) (p, s, c) =
        (p', dropWhile is_numch s, c(3 \<mapsto> takeWhile is_numch s)) # tl"
    if "takeWhile is_numch s \<noteq> []" for p s c
    using that last_group_plus[where a = NumCh and n = 3 and p = p and s = s and c = c] by auto
  show ?thesis
    unfolding row_pat_of_def row_at_def Let_def
    by (simp only: e1 e2 e4 e5 e8 seqs_atom_lit) (auto split: option.splits simp: e9a intro: e9b)
qed


lemma finditer_none:
  "ms r (p, s, Map.empty) = [] \<Longrightarrow>
   finditer_from r p s = (case s of [] \<Rightarrow> [] | x # xs \<Rightarrow> finditer_from r (Some x) xs)"
  by (subst finditer_from.simps) simp

lemma finditer_some:
  "ms r (p, s, Map.empty) = m # others \<Longrightarrow> length (rest_of m) < length s \<Longrightarrow>
   finditer_from r p s = m # finditer_from r (prev_of m) (rest_of m)"
  by (subst finditer_from.simps) simp

lemma length_strip: "strip w s = Some r \<Longrightarrow> length r \<le> length s"
  by (induction w arbitrary: s) (auto split: list.splits if_splits, fastforce)

lemma length_dropWhile_less: "takeWhile P s \<noteq> [] \<Longrightarrow> length (dropWhile P s) < length s"
  by (cases s) (auto simp: le_imp_less_Suc length_dropWhile_le split: if_splits)

lemma row_at_shorter:
  assumes "row_at C s = Some (g, rest)"
  shows "length rest < length s"
proof -
  from assms obtain s2 s5 where
    th: "takeWhile is_digit s \<noteq> []" and
    s2: "strip ''|'' (dropWhile is_space (dropWhile is_digit s)) = Some s2" and
    s5: "strip ''|'' (dropWhile is_space (dropWhile C (dropWhile is_space s2))) = Some s5" and
    rest: "rest = dropWhile is_numch (dropWhile is_space s5)"
    by (auto simp: row_at_def Let_def split: if_splits option.splits)
  have "length rest \<le> length s5"
    unfolding rest by (meson length_dropWhile_le order_trans)
  also have "\<dots> \<le> length (dropWhile is_space (dropWhile C (dropWhile is_space s2)))"
    using s5 by (rule length_strip)
  also have "\<dots> \<le> length s2"
    by (meson length_dropWhile_le order_trans)
  also have "\<dots> \<le> length (dropWhile is_space (dropWhile is_digit s))"
    using s2 by (rule length_strip)
  also have "\<dots> \<le> length (dropWhile is_digit s)"
    by (rule length_dropWhile_le)
  also have "\<dots> < length s"
    using th by (rule length_dropWhile_less)
  finally show ?thesis .
qed

lemma rows_from_none:
  assumes C: "\<And>x. atom_matches ca x \<Longrightarrow> is_numch x"
    and "row_at (atom_matches ca) s = None"
  shows "rows_from (row_pat_of ca) p s =
     (case s of [] \<Rightarrow> [] | x # xs \<Rightarrow> rows_from (row_pat_of ca) (Some x) xs)"
proof -
  have "ms (row_pat_of ca) (p, s, Map.empty) = []"
    using row_ms[where ca = ca and s = s and p = p and c = Map.empty] C assms(2) by simp
  then show ?thesis
    unfolding rows_from_def by (simp add: finditer_none split: list.splits)
qed

lemma rows_from_some:
  assumes C: "\<And>x. atom_matches ca x \<Longrightarrow> is_numch x"
    and "row_at (atom_matches ca) s = Some (g, rest)"
  shows "\<exists>p'. rows_from (row_pat_of ca) p s = g # rows_from (row_pat_of ca) p' rest"
proof -
  obtain th ch thr where g: "g = (th, ch, thr)" by (cases g) auto
  obtain p' others where m: "ms (row_pat_of ca) (p, s, Map.empty) =
      (p', rest, Map.empty(1 \<mapsto> th, 2 \<mapsto> ch, 3 \<mapsto> thr)) # others"
    using row_ms[where ca = ca and s = s and p = p and c = Map.empty] C assms(2) g by auto
  have "length rest < length s" using assms(2) by (rule row_at_shorter)
  then have "finditer_from (row_pat_of ca) p s =
      (p', rest, Map.empty(1 \<mapsto> th, 2 \<mapsto> ch, 3 \<mapsto> thr)) # finditer_from (row_pat_of ca) p' rest"
    using finditer_some[OF m] by (simp add: rest_of_def prev_of_def)
  then show ?thesis
    unfolding rows_from_def g by (auto simp: group_str_def group_def caps_of_def)
qed

section \<open>Rows and other text\<close>


lemma nlp_Cons: "nlp (x # s) = (if is_space x then nlp s else x \<noteq> CHR ''|'')"
  by (simp add: nlp_def)

lemma nlp_append: "pipe_free u \<Longrightarrow> nlp t \<Longrightarrow> nlp (u @ t)"
  by (induction u) (auto simp: nlp_Cons pipe_free_def)

lemma nlp_drop_digits:
  "pipe_free j \<Longrightarrow> j \<noteq> [] \<Longrightarrow> \<not> is_digit (last j) \<Longrightarrow> nlp t \<Longrightarrow>
   nlp (dropWhile is_digit (j @ t))"
proof (induction j)
  case Nil
  then show ?case by simp
next
  case (Cons x j)
  show ?case
  proof (cases "is_digit x")
    case True
    with Cons.prems have "j \<noteq> []" by auto
    with Cons True show ?thesis by (auto simp: pipe_free_def)
  next
    case False
    have "nlp ((x # j) @ t)" using Cons.prems by (intro nlp_append)
    with False show ?thesis by simp
  qed
qed


lemma no_pipe_strip:
  "(case l of [] \<Rightarrow> True | x # _ \<Rightarrow> x \<noteq> CHR ''|'') \<Longrightarrow> strip ''|'' l = None"
  by (cases l) auto

lemma row_at_None_nlp:
  assumes "nlp (dropWhile is_digit s)"
  shows "row_at C s = None"
proof -
  have "strip ''|'' (dropWhile is_space (dropWhile is_digit s)) = None"
    using assms unfolding nlp_def by (rule no_pipe_strip)
  then show ?thesis
    by (simp add: row_at_def Let_def)
qed

lemma yields_step:
  assumes C: "\<And>x. atom_matches ca x \<Longrightarrow> is_numch x"
    and "row_at (atom_matches ca) (x # s) = None" and "yields (row_pat_of ca) s R"
  shows "yields (row_pat_of ca) (x # s) R"
  using assms(3) rows_from_none[where ca = ca and s = "x # s", OF C assms(2)]
  by (simp add: yields_def)

lemma yields_junk:
  assumes C: "\<And>x. atom_matches ca x \<Longrightarrow> is_numch x"
  shows "pipe_free j \<Longrightarrow> j = [] \<or> \<not> is_digit (last j) \<Longrightarrow> nlp t \<Longrightarrow>
     yields (row_pat_of ca) t R \<Longrightarrow> yields (row_pat_of ca) (j @ t) R"
proof (induction j)
  case Nil
  then show ?case by simp
next
  case (Cons x j)
  have "nlp (dropWhile is_digit ((x # j) @ t))"
    using Cons.prems by (intro nlp_drop_digits) auto
  then have none: "row_at (atom_matches ca) (x # j @ t) = None"
    using row_at_None_nlp by simp
  have "yields (row_pat_of ca) (j @ t) R"
    using Cons by (auto simp: pipe_free_def split: if_splits)
  then show ?case
    using yields_step[OF C none] by simp
qed


lemma takeWhile_stop:
  "b = [] \<or> \<not> P (hd b) \<Longrightarrow> takeWhile P b = [] \<and> dropWhile P b = b"
  by (cases b) auto

lemma takeWhile_field:
  assumes "list_all P a" and "b = [] \<or> \<not> P (hd b)"
  shows "takeWhile P (a @ b) = a" and "dropWhile P (a @ b) = b"
  using assms takeWhile_stop[of b P] by (induction a) auto







section \<open>Sections made of lines\<close>





lemma newline_space: "is_space newline"
  by (simp add: is_space_def py_whitespace_def newline_def)



lemma newline_not_pipe: "newline \<noteq> CHR ''|''"
  using newline_space space_not_pipe by blast





lemma join_lines_Cons: "join_lines (l # ls) = l @ concat (map (\<lambda>x. newline # x) ls)"
  by (simp add: join_lines_def)



section \<open>Values of the rows\<close>

lemma collect_Inr_mem:
  "collect f xs = Inr ys \<Longrightarrow> y \<in> set ys \<Longrightarrow> \<exists>x \<in> set xs. f x = Inr y"
  by (induction xs arbitrary: ys) (auto split: sum.splits)

lemma py_int_nonneg: "py_int s = Inr t \<Longrightarrow> 0 \<le> t"
  by (auto simp: py_int_def split: if_splits)

lemma py_float_nonneg: "py_float s = Inr q \<Longrightarrow> 0 \<le> q"
  by (auto simp: py_float_def Let_def split: if_splits)

lemma mylib_row_of_nonneg:
  "mylib_row_of g = Inr r \<Longrightarrow> 0 \<le> Threads r \<and> 0 \<le> ChunkMB r \<and> 0 \<le> Throughput r"
  by (auto simp: mylib_row_of_def split: prod.splits sum.splits dest: py_int_nonneg py_float_nonneg)

lemma test_row_of_nonneg:
  "test_row_of g = Inr r \<Longrightarrow> 0 \<le> TThreads r \<and> 0 \<le> TChunkMB r \<and> 0 \<le> TThroughput r"
  by (auto simp: test_row_of_def split: prod.splits sum.splits dest: py_int_nonneg py_float_nonneg)

lemma extract_nonneg:
  "extract sec = Inr rows \<Longrightarrow> r \<in> set rows \<Longrightarrow>
   0 \<le> Threads r \<and> 0 \<le> ChunkMB r \<and> 0 \<le> Throughput r"
  unfolding extract_def
  by (auto split: option.splits dest!: collect_Inr_mem dest: mylib_row_of_nonneg)

lemma extract_data_nonneg:
  "extract_data s = Inr rows \<Longrightarrow> r \<in> set rows \<Longrightarrow>
   0 \<le> TThreads r \<and> 0 \<le> TChunkMB r \<and> 0 \<le> TThroughput r"
  unfolding extract_data_def
  by (auto split: if_splits dest!: collect_Inr_mem dest: test_row_of_nonneg)






section \<open>The matcher on the section patterns\<close>


lemma strip_Some_iff: "strip w s = Some r \<longleftrightarrow> s = w @ r"
  by (induction w arbitrary: s) (auto split: list.splits)

lemma strip_append: "strip (a @ b) s = (case strip a s of None \<Rightarrow> None | Some r \<Rightarrow> strip b r)"
  by (induction a arbitrary: s) (auto split: list.splits)

lemma seqs_lit:
  "ms (seqs (lit w # rs)) (p, s, c) =
     (case strip w s of None \<Rightarrow> [] | Some r \<Rightarrow> ms (seqs rs) (lastp p w, r, c))"
  by (simp add: ms_seqs_Cons ms_lit split: option.splits)

lemma reject_lit:
  "w \<noteq> [] \<Longrightarrow> x \<noteq> hd w \<Longrightarrow> ms (seqs (lit w # rs)) (p, x # xs, c) = []"
  by (cases w) (auto simp: seqs_lit)

lemma ms_lookahead_eq:
  "ms (seqs [Lookahead (Alt (lit ''=='') EndZ)]) (p, s, c) =
     (if s = [] \<or> stop_eq s then [(p, s, c)] else [])"
  by (auto simp: ms_seqs_Cons ms_seqs_Nil ms_lit stop_eq_def split: option.splits)

lemma ms_lookahead_eol:
  "ms (seqs [Lookahead (Alt (lit ''=='') Eol)]) (p, s, c) =
     (if s = [] \<or> stop_eq_eol s then [(p, s, c)] else [])"
  by (auto simp: ms_seqs_Cons ms_seqs_Nil ms_lit stop_eq_eol_def split: option.splits)

lemma lazy_dotall_first:
  assumes K: "\<And>p s c. K (p, s, c) = (if s = [] \<or> stop s then [F (p, s, c)] else [])"
  shows "\<exists>p' others. concat (map K (ms (LazyStar (Atom DotAll)) (p, s, c))) =
           F (p', drop (length (upto_stop stop s)) s, c) # others"
proof (induction s arbitrary: p)
  case Nil
  show ?case by (subst ms_lazystar_atom) (auto simp: K)
next
  case (Cons x xs)
  show ?case
  proof (cases "stop (x # xs)")
    case True
    then show ?thesis by (subst ms_lazystar_atom) (auto simp: K)
  next
    case False
    then show ?thesis
      using Cons[of "Some x"] by (subst ms_lazystar_atom) (simp add: K)
  qed
qed

lemma upto_stop_prefix: "take (length (upto_stop stop s)) s = upto_stop stop s"
  by (induction s) auto

lemma upto_stop_length: "length (upto_stop stop s) \<le> length s"
  by (induction s) auto

lemma capture_lazy:
  assumes LA: "\<And>p s c. ms (seqs [la]) (p, s, c) = (if s = [] \<or> stop s then [(p, s, c)] else [])"
  shows "\<exists>p' others. ms (seqs [Group 1 (LazyStar (Atom DotAll)), la]) (p, s, c) =
           (p', drop (length (upto_stop stop s)) s, c(1 \<mapsto> upto_stop stop s)) # others"
proof -
  let ?f = "\<lambda>(p', s', c'). (p', s', c'(1 \<mapsto> take (length s - length s') s))"
  let ?K = "\<lambda>st. ms (seqs [la]) (?f st)"
  have K: "\<And>p' s' c'. ?K (p', s', c') = (if s' = [] \<or> stop s' then [?f (p', s', c')] else [])"
    by (simp add: LA)
  have "ms (seqs [Group 1 (LazyStar (Atom DotAll)), la]) (p, s, c) =
        concat (map ?K (ms (LazyStar (Atom DotAll)) (p, s, c)))"
    by (simp add: ms_seqs_Cons comp_def)
  moreover obtain p' others where
    "concat (map ?K (ms (LazyStar (Atom DotAll)) (p, s, c))) =
       ?f (p', drop (length (upto_stop stop s)) s, c) # others"
    using lazy_dotall_first[where K = ?K and F = ?f and stop = stop, OF K] by blast
  moreover have "length s - (length s - length (upto_stop stop s)) = length (upto_stop stop s)"
    using upto_stop_length[of stop s] by simp
  ultimately show ?thesis
    by (simp add: upto_stop_prefix)
qed

lemma eq_not_space: "\<not> is_space CHR ''=''"
  by (simp add: is_space_def py_whitespace_def)

lemma mylib_section_ms:
  assumes "good_name name"
  shows "case marker_at name s of
           None \<Rightarrow> ms (mylib_section_pat name) (p, s, c) = []
         | Some r \<Rightarrow>
             (\<exists>p' others. ms (mylib_section_pat name) (p, s, c) =
                (p', drop (length (upto_stop stop_eq r)) r, c(1 \<mapsto> upto_stop stop_eq r)) # others)"
proof -
  let ?tail = "[Group 1 (LazyStar (Atom DotAll)), Lookahead (Alt (lit ''=='') EndZ)]"
  let ?K4 = "lit ''==='' # ?tail"
  let ?K2 = "lit name # Star (Atom Space) # ?K4"
  have n: "name \<noteq> []" "\<not> is_space (hd name)" using assms by (auto simp: good_name_def)
  have e1: "\<And>p s c. ms (seqs (Star (Atom Space) # ?K2)) (p, s, c) =
         ms (seqs ?K2) (lastp p (takeWhile is_space s), dropWhile is_space s, c)"
    using seqs_star[where a = Space and rs = ?K2] n
    by (simp add: reject_lit) (metis reject_lit)
  have e2: "\<And>p s c. ms (seqs (Star (Atom Space) # ?K4)) (p, s, c) =
         ms (seqs ?K4) (lastp p (takeWhile is_space s), dropWhile is_space s, c)"
    using seqs_star[where a = Space and rs = ?K4] eq_not_space
    by (simp add: reject_lit) (metis list.sel(1) list.simps(3) reject_lit)
  have e3: "\<And>p s c. \<exists>p' others. ms (seqs ?tail) (p, s, c) =
           (p', drop (length (upto_stop stop_eq s)) s, c(1 \<mapsto> upto_stop stop_eq s)) # others"
    using capture_lazy[where la = "Lookahead (Alt (lit ''=='') EndZ)" and stop = stop_eq]
    by (simp add: ms_lookahead_eq)
  show ?thesis
    unfolding mylib_section_pat_def marker_at_def
    by (simp only: seqs_lit e1 e2) (auto split: option.splits intro: e3 simp del: One_nat_def)
qed

lemma test_section_ms:
  "case test_marker_at name s of
           None \<Rightarrow> ms (test_section_pat name) (p, s, c) = []
         | Some r \<Rightarrow>
             (\<exists>p' others. ms (test_section_pat name) (p, s, c) =
                (p', drop (length (upto_stop stop_eq_eol r)) r, c(1 \<mapsto> upto_stop stop_eq_eol r)) # others)"
proof -
  let ?tail = "[Group 1 (LazyStar (Atom DotAll)), Lookahead (Alt (lit ''=='') Eol)]"
  have e3: "\<And>p s c. \<exists>p' others. ms (seqs ?tail) (p, s, c) =
           (p', drop (length (upto_stop stop_eq_eol s)) s, c(1 \<mapsto> upto_stop stop_eq_eol s)) # others"
    using capture_lazy[where la = "Lookahead (Alt (lit ''=='') Eol)" and stop = stop_eq_eol]
    by (simp add: ms_lookahead_eol)
  show ?thesis
    unfolding test_section_pat_def test_marker_at_def
    by (simp only: seqs_lit) (auto split: option.splits intro: e3 simp del: One_nat_def)
qed


lemma search_find:
  assumes "\<And>p s. case M s of
              None \<Rightarrow> ms r (p, s, Map.empty) = []
            | Some b \<Rightarrow> (\<exists>p' others. ms r (p, s, Map.empty) = (p', R b, [1 \<mapsto> B b]) # others)"
  shows "map_option (\<lambda>m. group m 1) (search_from r p s) = map_option Some (find_section M B s)"
proof (induction s arbitrary: p)
  case Nil
  show ?case
    using assms[of p "[]"] by (auto simp: group_def caps_of_def split: option.splits)
next
  case (Cons x xs)
  show ?case
    using assms[of p "x # xs"] Cons[of "Some x"]
    by (auto simp: group_def caps_of_def split: option.splits)
qed

lemma section_body_mylib:
  assumes "good_name name"
  shows "section_body (mylib_section_pat name) s =
         map_option Some (find_section (marker_at name) (upto_stop stop_eq) s)"
  unfolding section_body_def re_search_def
  by (rule search_find[where R = "\<lambda>r. drop (length (upto_stop stop_eq r)) r"])
     (use mylib_section_ms[OF assms] in \<open>auto split: option.splits\<close>)

lemma section_body_test:
  "section_body (test_section_pat name) s =
         map_option Some (find_section (test_marker_at name) (upto_stop stop_eq_eol) s)"
  unfolding section_body_def re_search_def
  by (rule search_find[where R = "\<lambda>r. drop (length (upto_stop stop_eq_eol r)) r"])
     (use test_section_ms in \<open>auto split: option.splits\<close>)

lemma good_names: "good_name enc_name" "good_name dec_name"
  by (simp_all add: good_name_def enc_name_def dec_name_def is_space_def py_whitespace_def)

section \<open>A marker followed by a section\<close>





lemma not_occurs_Cons: "\<not> occurs w (x # xs) \<Longrightarrow> \<not> occurs w xs"
  by simp

lemma hd_name_not_eq: "good_name name \<Longrightarrow> hd name \<noteq> CHR ''=''"
  by (cases name) (auto simp: good_name_def)



lemma marker_at_marker:
  assumes g: "good_name name"
  shows "marker_at name (marker name @ r) = Some r"
proof -
  have "dropWhile is_space (name @ '' ==='' @ r) = name @ '' ==='' @ r"
    using g by (cases name) (auto simp: good_name_def)
  moreover have "strip name (name @ '' ==='' @ r) = Some ('' ==='' @ r)"
    by (simp add: strip_Some_iff)
  moreover have "is_space CHR '' ''" by (simp add: is_space_def py_whitespace_def)
  ultimately show ?thesis
    by (simp add: marker_at_def marker_def eq_not_space)
qed

lemma test_marker_at_marker: "test_marker_at name (marker name @ r) = Some r"
  unfolding test_marker_at_def marker_def strip_Some_iff by simp

lemma test_marker_imp_marker:
  assumes "good_name name" and "test_marker_at name s = Some r"
  shows "marker_at name s = Some r"
proof -
  have "s = marker name @ r"
    using assms(2) unfolding test_marker_at_def marker_def strip_Some_iff by simp
  then show ?thesis using marker_at_marker[OF assms(1)] by simp
qed

lemma marker_None_test: "good_name name \<Longrightarrow> marker_at name s = None \<Longrightarrow> test_marker_at name s = None"
  by (cases "test_marker_at name s") (auto dest: test_marker_imp_marker)


lemma marker_starts: "marker name @ r = ''==='' @ CHR '' '' # name @ '' ==='' @ r"
  by (simp add: marker_def)


section \<open>The table of a well-formed section\<close>










section \<open>Counting rows, and the value of a field\<close>






lemma digits_val_append: "digits_val (a @ b) = digits_val a * 10 ^ length b + digits_val b"
proof -
  have f: "foldl (\<lambda>n c. 10 * n + digit_val c) n b =
             n * 10 ^ length b + foldl (\<lambda>n c. 10 * n + digit_val c) 0 b" for n
  proof (induction b arbitrary: n)
    case Nil
    show ?case by simp
  next
    case (Cons x xs)
    show ?case
      using Cons[of "10 * n + digit_val x"] Cons[of "digit_val x"]
      by (simp add: algebra_simps)
  qed
  show ?thesis
    using f[of "foldl (\<lambda>n c. 10 * n + digit_val c) 0 a"] by (simp add: digits_val_def)
qed

lemma dot_not_digit: "\<not> is_digit CHR ''.''"
  by (simp add: is_digit_def py_digits_def)

lemma py_float_num:
  assumes "wf_num n"
  shows "py_float (render_num n) = Inr (num_value n)"
proof (cases n)
  case (IntN ds)
  then have tw: "takeWhile is_digit ds = ds" "dropWhile is_digit ds = []"
    using assms takeWhile_field[of is_digit ds "[]"] by simp_all
  show ?thesis using IntN assms by (simp add: py_float_def tw)
next
  case (DecN ip fp)
  then have ip: "list_all is_digit ip" and fp: "list_all is_digit fp" and ne: "ip \<noteq> [] \<or> fp \<noteq> []"
    using assms by auto
  have tw: "takeWhile is_digit (ip @ CHR ''.'' # fp) = ip" "dropWhile is_digit (ip @ CHR ''.'' # fp) = CHR ''.'' # fp"
    using takeWhile_field[OF ip, of "CHR ''.'' # fp"] dot_not_digit by auto
  have "(of_nat (digits_val (ip @ fp)) :: rat) / 10 ^ length fp =
        of_nat (digits_val ip) + of_nat (digits_val fp) / 10 ^ length fp"
    by (simp add: digits_val_append add_divide_distrib)
  then show ?thesis
    using DecN fp ne by (simp add: py_float_def tw)
qed

lemma is_number_num: "wf_num n \<Longrightarrow> is_number (render_num n)"
  by (simp add: is_number_def py_float_num)


section \<open>What a section search finds\<close>
lemma find_section_None:
  "find_section M B s = None \<Longrightarrow> s = pre @ r \<Longrightarrow> M r = None"
proof (induction s arbitrary: pre)
  case Nil
  then show ?case by simp
next
  case (Cons x xs)
  show ?case
  proof (cases pre)
    case Nil
    with Cons.prems show ?thesis by (auto split: option.splits)
  next
    case (Cons y pre')
    with Cons.prems Cons.IH[of pre'] show ?thesis by (auto split: option.splits)
  qed
qed

lemma find_section_Some:
  "find_section M B s = Some b \<Longrightarrow>
   \<exists>pre r r'. s = pre @ r \<and> M r = Some r' \<and> b = B r' \<and>
     (\<forall>a c. pre = a @ c \<and> c \<noteq> [] \<longrightarrow> M (c @ r) = None)"
proof (induction s)
  case Nil
  then obtain r' where r': "M [] = Some r'" "b = B r'"
    by (cases "M []") simp_all
  show ?case
    by (rule exI[of _ "[]"], rule exI[of _ "[]"], rule exI[of _ r']) (simp add: r')
next
  case (Cons x xs)
  show ?case
  proof (cases "M (x # xs)")
    case (Some r')
    with Cons.prems have b: "b = B r'" by simp
    show ?thesis
      by (rule exI[of _ "[]"], rule exI[of _ "x # xs"], rule exI[of _ r']) (simp add: Some b)
  next
    case None
    with Cons.prems have "find_section M B xs = Some b" by simp
    from Cons.IH[OF this] obtain pre r r' where
      p: "xs = pre @ r" "M r = Some r'" "b = B r'"
         "\<And>a c. pre = a @ c \<Longrightarrow> c \<noteq> [] \<Longrightarrow> M (c @ r) = None" by auto
    have q: "M (c @ r) = None" if h: "x # pre = a @ c" "c \<noteq> []" for a c
    proof (cases a)
      case Nil
      with h have "c = x # pre" by simp
      with p(1) None show ?thesis by simp
    next
      case (Cons y a')
      with h have "pre = a' @ c" by simp
      with p(4) h(2) show ?thesis by simp
    qed
    show ?thesis
      by (rule exI[of _ "x # pre"], rule exI[of _ r], rule exI[of _ r']) (simp add: p(1,2,3) q)
  qed
qed

lemma list_all_takeWhile: "list_all P (takeWhile P xs)"
  by (induction xs) auto

lemma strip_after_space:
  assumes "strip w (dropWhile is_space s) = Some r"
  shows "s = takeWhile is_space s @ w @ r"
proof -
  have "dropWhile is_space s = w @ r" using assms strip_Some_iff by blast
  moreover have "s = takeWhile is_space s @ dropWhile is_space s" by simp
  ultimately show ?thesis by simp
qed

lemma marker_at_Some:
  assumes "marker_at name r = Some r'"
  shows "\<exists>w1 w2. r = ''==='' @ w1 @ name @ w2 @ ''==='' @ r' \<and> list_all is_space w1 \<and> list_all is_space w2"
proof -
  from assms obtain s1 s2 where
    1: "strip ''==='' r = Some s1" and 2: "strip name (dropWhile is_space s1) = Some s2"
    and 3: "strip ''==='' (dropWhile is_space s2) = Some r'"
    by (auto simp: marker_at_def split: option.splits)
  have r: "r = ''==='' @ s1" using 1 strip_Some_iff by blast
  note s1 = strip_after_space[OF 2]
  note s2 = strip_after_space[OF 3]
  have "r = ''==='' @ takeWhile is_space s1 @ name @ takeWhile is_space s2 @ ''==='' @ r'"
    by (subst r, subst s1, subst s2) simp
  then show ?thesis using list_all_takeWhile by blast
qed

lemma upto_stop_props:
  "\<exists>post. s = upto_stop stop s @ post \<and> (post = [] \<or> stop post) \<and>
     (\<forall>k<length (upto_stop stop s). \<not> stop (drop k s))"
proof (induction s)
  case Nil
  show ?case by simp
next
  case (Cons x xs)
  show ?case
  proof (cases "stop (x # xs)")
    case True
    then show ?thesis by simp
  next
    case False
    from Cons obtain post where p: "xs = upto_stop stop xs @ post" "post = [] \<or> stop post"
      "\<forall>k<length (upto_stop stop xs). \<not> stop (drop k xs)" by blast
    have "\<forall>k<length (upto_stop stop (x # xs)). \<not> stop (drop k (x # xs))"
    proof (intro allI impI)
      fix k assume "k < length (upto_stop stop (x # xs))"
      then show "\<not> stop (drop k (x # xs))"
        using False p(3) by (cases k) auto
    qed
    moreover have "x # xs = upto_stop stop (x # xs) @ post"
      using False p(1) by simp
    ultimately show ?thesis using p(2) by blast
  qed
qed

section \<open>The two row patterns\<close>

lemma numch_after_digits:
  "dropWhile is_digit s = [] \<or> \<not> is_numch (hd (dropWhile is_digit s)) \<Longrightarrow>
   takeWhile is_numch s = takeWhile is_digit s \<and> dropWhile is_numch s = dropWhile is_digit s"
  by (induction s) (auto simp: is_numch_def split: if_splits)

lemma digits_of_numch:
  "list_all is_digit (takeWhile is_numch s) \<Longrightarrow>
   takeWhile is_digit s = takeWhile is_numch s \<and> dropWhile is_digit s = dropWhile is_numch s"
  by (induction s) (auto simp: is_numch_def split: if_splits)

lemma strip_pipe_hd:
  assumes "strip ''|'' (dropWhile is_space t) = Some r"
  shows "t \<noteq> [] \<and> \<not> is_numch (hd t)"
proof (cases t)
  case Nil
  with assms show ?thesis by simp
next
  case (Cons x xs)
  show ?thesis
  proof (cases "is_space x")
    case True
    then show ?thesis using Cons space_not_numch by simp
  next
    case False
    with assms Cons have "x = CHR ''|''" by (simp split: if_splits)
    then show ?thesis using Cons numch_not_pipe by auto
  qed
qed

lemma row_at_cong:
  assumes "\<And>s2. strip ''|'' (dropWhile is_space (dropWhile is_digit s)) = Some s2 \<Longrightarrow>
     takeWhile C (dropWhile is_space s2) = takeWhile C' (dropWhile is_space s2) \<and>
     dropWhile C (dropWhile is_space s2) = dropWhile C' (dropWhile is_space s2)"
  shows "row_at C s = row_at C' s"
proof (cases "strip ''|'' (dropWhile is_space (dropWhile is_digit s))")
  case None
  show ?thesis unfolding row_at_def Let_def None by simp
next
  case (Some s2)
  from assms[OF Some]
  have e: "takeWhile C (dropWhile is_space s2) = takeWhile C' (dropWhile is_space s2)"
    "dropWhile C (dropWhile is_space s2) = dropWhile C' (dropWhile is_space s2)" by auto
  show ?thesis
    unfolding row_at_def Let_def Some option.case e by (rule refl)
qed

lemma row_at_digit_imp:
  assumes "row_at is_digit s = Some (g, rest)"
  shows "row_at is_numch s = Some (g, rest)"
proof -
  have "row_at is_numch s = row_at is_digit s"
  proof (rule row_at_cong)
    fix s2 assume s2: "strip ''|'' (dropWhile is_space (dropWhile is_digit s)) = Some s2"
    with assms obtain s5 where
      s5: "strip ''|'' (dropWhile is_space (dropWhile is_digit (dropWhile is_space s2))) = Some s5"
      by (auto simp: row_at_def Let_def split: if_splits option.splits)
    have "dropWhile is_digit (dropWhile is_space s2) \<noteq> [] \<and>
          \<not> is_numch (hd (dropWhile is_digit (dropWhile is_space s2)))"
      using s5 by (rule strip_pipe_hd)
    then show "takeWhile is_numch (dropWhile is_space s2) = takeWhile is_digit (dropWhile is_space s2) \<and>
       dropWhile is_numch (dropWhile is_space s2) = dropWhile is_digit (dropWhile is_space s2)"
      using numch_after_digits[of "dropWhile is_space s2"] by auto
  qed
  with assms show ?thesis by simp
qed

lemma no_dot_digits: "list_all is_numch ch \<Longrightarrow> CHR ''.'' \<notin> set ch \<Longrightarrow> list_all is_digit ch"
  by (induction ch) (auto simp: is_numch_def)

lemma row_at_numch_imp:
  assumes "row_at is_numch s = Some ((th, ch, thr), rest)" and "CHR ''.'' \<notin> set ch"
  shows "row_at is_digit s = Some ((th, ch, thr), rest)"
proof -
  have "row_at is_digit s = row_at is_numch s"
  proof (rule row_at_cong)
    fix s2 assume s2: "strip ''|'' (dropWhile is_space (dropWhile is_digit s)) = Some s2"
    with assms(1) have ch: "ch = takeWhile is_numch (dropWhile is_space s2)"
      by (auto simp: row_at_def Let_def split: if_splits option.splits)
    have "list_all is_digit (takeWhile is_numch (dropWhile is_space s2))"
      using assms(2) list_all_takeWhile[of is_numch "dropWhile is_space s2"] unfolding ch
      by (rule no_dot_digits[rotated])
    then show "takeWhile is_digit (dropWhile is_space s2) = takeWhile is_numch (dropWhile is_space s2) \<and>
       dropWhile is_digit (dropWhile is_space s2) = dropWhile is_numch (dropWhile is_space s2)"
      using digits_of_numch[of "dropWhile is_space s2"] by auto
  qed
  with assms(1) show ?thesis by simp
qed

lemma row_at_numch_None: "row_at is_numch s = None \<Longrightarrow> row_at is_digit s = None"
  using row_at_digit_imp by (cases "row_at is_digit s") auto

lemma digit_is_numch: "atom_matches Digit x \<Longrightarrow> is_numch x"
  by (simp add: digit_numch)

lemma numch_is_numch: "atom_matches NumCh x \<Longrightarrow> is_numch x"
  by simp

lemma rows_digit_numch:
  "list_all (\<lambda>g. CHR ''.'' \<notin> set (fst (snd g))) (rows_from (row_pat_of NumCh) p s) \<Longrightarrow>
   rows_from (row_pat_of Digit) p' s = rows_from (row_pat_of NumCh) p s"
proof (induction "length s" arbitrary: s p p' rule: less_induct)
  case less
  show ?case
  proof (cases "row_at is_numch s")
    case None
    note n = rows_from_none[where ca = NumCh and s = s, OF numch_is_numch, simplified, OF None]
    note d = rows_from_none[where ca = Digit and s = s, OF digit_is_numch, simplified,
        OF row_at_numch_None[OF None]]
    show ?thesis
    proof (cases s)
      case Nil
      then show ?thesis using n d by simp
    next
      case (Cons x xs)
      have "list_all (\<lambda>g. CHR ''.'' \<notin> set (fst (snd g))) (rows_from (row_pat_of NumCh) (Some x) xs)"
        using less.prems n[of p] Cons by simp
      from less.hyps[OF _ this, of "Some x"] show ?thesis
        using n[of p] d[of p'] Cons by simp
    qed
  next
    case (Some a)
    obtain th ch thr rest where a: "a = ((th, ch, thr), rest)" by (cases a) auto
    from rows_from_some[where ca = NumCh and s = s, OF numch_is_numch, simplified, OF Some[unfolded a], of p]
    obtain p1 where 1: "rows_from (row_pat_of NumCh) p s = (th, ch, thr) # rows_from (row_pat_of NumCh) p1 rest"
      by blast
    with less.prems have nd: "CHR ''.'' \<notin> set ch"
      and r: "list_all (\<lambda>g. CHR ''.'' \<notin> set (fst (snd g))) (rows_from (row_pat_of NumCh) p1 rest)"
      by auto
    have "row_at is_digit s = Some ((th, ch, thr), rest)"
      using Some a nd by (intro row_at_numch_imp) auto
    from rows_from_some[where ca = Digit and s = s, OF digit_is_numch, simplified, OF this, of p']
    obtain p2 where 2: "rows_from (row_pat_of Digit) p' s = (th, ch, thr) # rows_from (row_pat_of Digit) p2 rest"
      by blast
    have "length rest < length s" using Some a row_at_shorter by blast
    from less.hyps[OF this r, of p2] show ?thesis using 1 2 by simp
  qed
qed

section \<open>Row counts\<close>




section \<open>Lines that are not rows\<close>




section \<open>Decimal fields\<close>




section \<open>The invariant of a row\<close>

text \<open>
  C5, as stated: every row the triplet parser produces has \<open>threads \<ge> 1\<close>,
  \<open>chunk_size_mb > 0\<close> and \<open>throughput_mb_s \<ge> 0\<close>. The line \<open>0 | 0 | 0\<close> matches the row
  pattern, and the parser returns the row of three zeros, which has neither
  \<open>threads \<ge> 1\<close> nor \<open>chunk_size_mb > 0\<close>.
\<close>

theorem C5_zero_row_counterexample:
  "parse_mylib_results (join_lines [''=== ENCRYPTION THREAD/CHUNK SWEEP ==='', ''0 | 0 | 0'']) =
     Inr ([\<lparr>Threads = 0, ChunkMB = 0, Throughput = 0\<rparr>], []) \<and>
   \<not> (1 \<le> Threads \<lparr>Threads = 0, ChunkMB = 0, Throughput = 0\<rparr> \<and>
      0 < ChunkMB \<lparr>Threads = 0, ChunkMB = 0, Throughput = 0\<rparr> \<and>
      0 \<le> Throughput \<lparr>Threads = 0, ChunkMB = 0, Throughput = 0\<rparr>)"
  by code_simp

text \<open>
  C5, amended: for every input text, every row of either table returned by
  \<open>parse_mylib_results\<close> or by \<open>parse_test_results\<close> has \<open>threads \<ge> 0\<close>, \<open>chunk_size_mb \<ge> 0\<close>
  and \<open>throughput_mb_s \<ge> 0\<close>: the patterns admit no sign, and nothing checks a field
  against zero.
\<close>

theorem C5_rows_nonnegative:
  "(parse_mylib_results text = Inr (enc, dec) \<longrightarrow>
      (\<forall>r \<in> set enc \<union> set dec. 0 \<le> Threads r \<and> 0 \<le> ChunkMB r \<and> 0 \<le> Throughput r)) \<and>
   (parse_test_results text = Inr (tenc, tdec) \<longrightarrow>
      (\<forall>r \<in> set tenc \<union> set tdec. 0 \<le> TThreads r \<and> 0 \<le> TChunkMB r \<and> 0 \<le> TThroughput r))"
  unfolding parse_mylib_results_def parse_test_results_def Let_def
  by (auto split: sum.splits dest: extract_nonneg extract_data_nonneg)

theorem C5_rows_nonnegative_witness:
  "parse_mylib_results (join_lines [''=== ENCRYPTION THREAD/CHUNK SWEEP ==='', ''0 | 0 | 0'']) =
     Inr ([\<lparr>Threads = 0, ChunkMB = 0, Throughput = 0\<rparr>], []) \<and>
   parse_test_results (join_lines [''=== DECRYPTION THREAD/CHUNK SWEEP ==='', ''2 | 4 | 7'']) =
     Inr ([], [\<lparr>TThreads = 2, TChunkMB = 4, TThroughput = 7\<rparr>]) \<and>
   0 \<le> Threads \<lparr>Threads = 0, ChunkMB = 0, Throughput = 0\<rparr> \<and>
   0 \<le> ChunkMB \<lparr>Threads = 0, ChunkMB = 0, Throughput = 0\<rparr> \<and>
   0 \<le> Throughput \<lparr>Threads = 0, ChunkMB = 0, Throughput = 0\<rparr> \<and>
   0 \<le> TThreads \<lparr>TThreads = 2, TChunkMB = 4, TThroughput = 7\<rparr> \<and>
   0 \<le> TChunkMB \<lparr>TThreads = 2, TChunkMB = 4, TThroughput = 7\<rparr> \<and>
   0 \<le> TThroughput \<lparr>TThreads = 2, TChunkMB = 4, TThroughput = 7\<rparr>"
proof -
  have a: "parse_mylib_results (join_lines [''=== ENCRYPTION THREAD/CHUNK SWEEP ==='', ''0 | 0 | 0'']) =
     Inr ([\<lparr>Threads = 0, ChunkMB = 0, Throughput = 0\<rparr>], [])"
    by code_simp
  have b: "parse_test_results (join_lines [''=== DECRYPTION THREAD/CHUNK SWEEP ==='', ''2 | 4 | 7'']) =
     Inr ([], [\<lparr>TThreads = 2, TChunkMB = 4, TThroughput = 7\<rparr>])"
    by code_simp
  from C5_rows_nonnegative[of "join_lines [''=== ENCRYPTION THREAD/CHUNK SWEEP ==='', ''0 | 0 | 0'']"
      "[\<lparr>Threads = 0, ChunkMB = 0, Throughput = 0\<rparr>]" "[]"] a
  have c: "\<forall>r \<in> set [\<lparr>Threads = 0, ChunkMB = 0, Throughput = 0\<rparr>] \<union> set [].
      0 \<le> Threads r \<and> 0 \<le> ChunkMB r \<and> 0 \<le> Throughput r"
    by blast
  from C5_rows_nonnegative[where tenc = "[]" and tdec = "[\<lparr>TThreads = 2, TChunkMB = 4, TThroughput = 7\<rparr>]",
      of "join_lines [''=== DECRYPTION THREAD/CHUNK SWEEP ==='', ''2 | 4 | 7'']"] b
  have d: "\<forall>r \<in> set [] \<union> set [\<lparr>TThreads = 2, TChunkMB = 4, TThroughput = 7\<rparr>].
      0 \<le> TThreads r \<and> 0 \<le> TChunkMB r \<and> 0 \<le> TThroughput r"
    by blast
  from c have c': "0 \<le> Threads \<lparr>Threads = 0, ChunkMB = 0, Throughput = 0\<rparr> \<and>
      0 \<le> ChunkMB \<lparr>Threads = 0, ChunkMB = 0, Throughput = 0\<rparr> \<and>
      0 \<le> Throughput \<lparr>Threads = 0, ChunkMB = 0, Throughput = 0\<rparr>"
    by simp
  from d have d': "0 \<le> TThreads \<lparr>TThreads = 2, TChunkMB = 4, TThroughput = 7\<rparr> \<and>
      0 \<le> TChunkMB \<lparr>TThreads = 2, TChunkMB = 4, TThroughput = 7\<rparr> \<and>
      0 \<le> TThroughput \<lparr>TThreads = 2, TChunkMB = 4, TThroughput = 7\<rparr>"
    by simp
  show ?thesis using a b c' d' by blast
qed

section \<open>The extent of a section\<close>

text \<open>
  C6, as stated: the captured body runs from just after the marker to the next
  \<open>===\<close>-prefixed marker, or to the end of the input if there is none; a text with no
  \<open>===\<close>-prefixed line after the marker is captured in full. The lookahead of the section
  pattern is \<open>(?=\<close> followed by \<open>==\<close>: the body ends at the first two equal signs. Here no
  \<open>===\<close> follows the marker, and the body ends before \<open>== note\<close>.
\<close>

theorem C6_two_equal_signs_counterexample:
  "section_body (mylib_section_pat enc_name)
     (''=== ENCRYPTION THREAD/CHUNK SWEEP ==='' @ join_lines ['''', ''1 | 2 | 3'', ''== note'', ''4 | 5 | 6'']) =
     Some (Some (join_lines ['''', ''1 | 2 | 3'', ''''])) \<and>
   \<not> occurs ''==='' (join_lines ['''', ''1 | 2 | 3'', ''== note'', ''4 | 5 | 6'']) \<and>
   join_lines ['''', ''1 | 2 | 3'', ''''] \<noteq> join_lines ['''', ''1 | 2 | 3'', ''== note'', ''4 | 5 | 6'']"
  by code_simp

text \<open>
  C6, amended: for every input text and each of the two section names, the body that
  \<open>charts.py\<close> captures is the text from just after the first match of the marker (three
  equal signs, optional whitespace, the name, optional whitespace, three equal signs) up to,
  and not including, the first two equal signs \<open>==\<close> that follow, or up to the end of the
  input if none follow; no marker is found exactly when the marker matches nowhere. The
  body that \<open>test_parser.py\<close> captures begins after the first literal marker and ends
  likewise, or before a line break that is the last character of the input.
\<close>

theorem C6_section_body:
  assumes "name = enc_name \<or> name = dec_name"
  shows "(case section_body (mylib_section_pat name) inp of
            None \<Rightarrow> (\<forall>pre r. inp = pre @ r \<longrightarrow> marker_at name r = None)
          | Some None \<Rightarrow> False
          | Some (Some body) \<Rightarrow>
              (\<exists>pre w1 w2 post.
                 inp = pre @ ''==='' @ w1 @ name @ w2 @ ''==='' @ body @ post \<and>
                 list_all is_space w1 \<and> list_all is_space w2 \<and>
                 (\<forall>a c. pre = a @ c \<and> c \<noteq> [] \<longrightarrow>
                    marker_at name (c @ ''==='' @ w1 @ name @ w2 @ ''==='' @ body @ post) = None) \<and>
                 (post = [] \<or> stop_eq post) \<and>
                 (\<forall>k<length body. \<not> stop_eq (drop k (body @ post))))) \<and>
         (case section_body (test_section_pat name) inp of
            None \<Rightarrow> (\<forall>pre r. inp \<noteq> pre @ marker name @ r)
          | Some None \<Rightarrow> False
          | Some (Some body) \<Rightarrow>
              (\<exists>pre post.
                 inp = pre @ marker name @ body @ post \<and>
                 (\<forall>a c r. pre = a @ c \<and> c \<noteq> [] \<longrightarrow> c @ marker name @ body @ post \<noteq> marker name @ r) \<and>
                 (post = [] \<or> stop_eq_eol post) \<and>
                 (\<forall>k<length body. \<not> stop_eq_eol (drop k (body @ post)))))"
proof
  have g: "good_name name" using assms good_names by auto
  let ?f = "find_section (marker_at name) (upto_stop stop_eq) inp"
  show "case section_body (mylib_section_pat name) inp of
            None \<Rightarrow> (\<forall>pre r. inp = pre @ r \<longrightarrow> marker_at name r = None)
          | Some None \<Rightarrow> False
          | Some (Some body) \<Rightarrow>
              (\<exists>pre w1 w2 post.
                 inp = pre @ ''==='' @ w1 @ name @ w2 @ ''==='' @ body @ post \<and>
                 list_all is_space w1 \<and> list_all is_space w2 \<and>
                 (\<forall>a c. pre = a @ c \<and> c \<noteq> [] \<longrightarrow>
                    marker_at name (c @ ''==='' @ w1 @ name @ w2 @ ''==='' @ body @ post) = None) \<and>
                 (post = [] \<or> stop_eq post) \<and>
                 (\<forall>k<length body. \<not> stop_eq (drop k (body @ post))))"
  proof (cases ?f)
    case None
    then show ?thesis
      using find_section_None[OF None]
      by (simp add: section_body_mylib[OF g])
  next
    case (Some body)
    from find_section_Some[OF Some] obtain pre r r' where
      p: "inp = pre @ r" "marker_at name r = Some r'" "body = upto_stop stop_eq r'"
         "\<And>a c. pre = a @ c \<Longrightarrow> c \<noteq> [] \<Longrightarrow> marker_at name (c @ r) = None" by auto
    from marker_at_Some[OF p(2)] obtain w1 w2 where
      w: "r = ''==='' @ w1 @ name @ w2 @ ''==='' @ r'" "list_all is_space w1" "list_all is_space w2"
      by blast
    from upto_stop_props[of r' stop_eq] obtain post where
      q: "r' = body @ post" "post = [] \<or> stop_eq post" "\<forall>k<length body. \<not> stop_eq (drop k r')"
      unfolding p(3) by blast
    have "inp = pre @ ''==='' @ w1 @ name @ w2 @ ''==='' @ body @ post \<and>
          list_all is_space w1 \<and> list_all is_space w2 \<and>
          (\<forall>a c. pre = a @ c \<and> c \<noteq> [] \<longrightarrow>
             marker_at name (c @ ''==='' @ w1 @ name @ w2 @ ''==='' @ body @ post) = None) \<and>
          (post = [] \<or> stop_eq post) \<and>
          (\<forall>k<length body. \<not> stop_eq (drop k (body @ post)))"
      using p(1) p(4) w q by simp
    then show ?thesis
      unfolding section_body_mylib[OF g] Some by (simp only: option.case option.map) blast
  qed
  let ?t = "find_section (test_marker_at name) (upto_stop stop_eq_eol) inp"
  show "case section_body (test_section_pat name) inp of
            None \<Rightarrow> (\<forall>pre r. inp \<noteq> pre @ marker name @ r)
          | Some None \<Rightarrow> False
          | Some (Some body) \<Rightarrow>
              (\<exists>pre post.
                 inp = pre @ marker name @ body @ post \<and>
                 (\<forall>a c r. pre = a @ c \<and> c \<noteq> [] \<longrightarrow> c @ marker name @ body @ post \<noteq> marker name @ r) \<and>
                 (post = [] \<or> stop_eq_eol post) \<and>
                 (\<forall>k<length body. \<not> stop_eq_eol (drop k (body @ post))))"
  proof (cases ?t)
    case None
    have "inp \<noteq> pre @ marker name @ r" for pre r
    proof
      assume "inp = pre @ marker name @ r"
      from find_section_None[OF None this] show False
        by (simp add: test_marker_at_marker)
    qed
    then show ?thesis
      using None by (simp add: section_body_test)
  next
    case (Some body)
    from find_section_Some[OF Some] obtain pre r r' where
      p: "inp = pre @ r" "test_marker_at name r = Some r'" "body = upto_stop stop_eq_eol r'"
         "\<And>a c. pre = a @ c \<Longrightarrow> c \<noteq> [] \<Longrightarrow> test_marker_at name (c @ r) = None" by auto
    have r: "r = marker name @ r'"
      using p(2) unfolding test_marker_at_def marker_def strip_Some_iff by simp
    from upto_stop_props[of r' stop_eq_eol] obtain post where
      q: "r' = body @ post" "post = [] \<or> stop_eq_eol post" "\<forall>k<length body. \<not> stop_eq_eol (drop k r')"
      unfolding p(3) by blast
    have n: "c @ marker name @ body @ post \<noteq> marker name @ r''" if "pre = a @ c" "c \<noteq> []" for a c r''
    proof
      assume "c @ marker name @ body @ post = marker name @ r''"
      then have "test_marker_at name (c @ r) = Some r''"
        using r q(1) test_marker_at_marker[of name r''] by simp
      with p(4)[OF that] show False by simp
    qed
    have "inp = pre @ marker name @ body @ post \<and>
          (\<forall>a c r. pre = a @ c \<and> c \<noteq> [] \<longrightarrow> c @ marker name @ body @ post \<noteq> marker name @ r) \<and>
          (post = [] \<or> stop_eq_eol post) \<and>
          (\<forall>k<length body. \<not> stop_eq_eol (drop k (body @ post)))"
      using p(1) r q n by simp
    then show ?thesis
      unfolding section_body_test Some by (simp only: option.case option.map) blast
  qed
qed


theorem C6_section_body_witness:
  "(dec_name = enc_name \<or> dec_name = dec_name) \<and>
   section_body (mylib_section_pat dec_name)
     (join_lines [''=== ENCRYPTION THREAD/CHUNK SWEEP ==='', ''1 | 4 | 120.5'',
                  ''===DECRYPTION THREAD/CHUNK SWEEP  ==='', ''9 | 9 | 9'', ''== end'',
                  ''=== DECRYPTION THREAD/CHUNK SWEEP ==='', ''1 | 4 | 150.0'', []]) =
     Some (Some (join_lines [[], ''9 | 9 | 9'', []])) \<and>
   section_body (test_section_pat dec_name)
     (join_lines [''=== ENCRYPTION THREAD/CHUNK SWEEP ==='', ''1 | 4 | 120.5'',
                  ''===DECRYPTION THREAD/CHUNK SWEEP  ==='', ''9 | 9 | 9'', ''== end'',
                  ''=== DECRYPTION THREAD/CHUNK SWEEP ==='', ''1 | 4 | 150.0'', []]) =
     Some (Some (join_lines [[], ''1 | 4 | 150.0''])) \<and>
   (\<exists>pre w1 w2 post.
      join_lines [''=== ENCRYPTION THREAD/CHUNK SWEEP ==='', ''1 | 4 | 120.5'',
                  ''===DECRYPTION THREAD/CHUNK SWEEP  ==='', ''9 | 9 | 9'', ''== end'',
                  ''=== DECRYPTION THREAD/CHUNK SWEEP ==='', ''1 | 4 | 150.0'', []] =
        pre @ ''==='' @ w1 @ dec_name @ w2 @ ''==='' @ join_lines [[], ''9 | 9 | 9'', []] @ post \<and>
      list_all is_space w1 \<and> list_all is_space w2 \<and>
      (\<forall>a c. pre = a @ c \<and> c \<noteq> [] \<longrightarrow>
         marker_at dec_name
           (c @ ''==='' @ w1 @ dec_name @ w2 @ ''==='' @ join_lines [[], ''9 | 9 | 9'', []] @ post) = None) \<and>
      (post = [] \<or> stop_eq post) \<and>
      (\<forall>k<length (join_lines [[], ''9 | 9 | 9'', []]).
         \<not> stop_eq (drop k (join_lines [[], ''9 | 9 | 9'', []] @ post)))) \<and>
   (\<exists>pre post.
      join_lines [''=== ENCRYPTION THREAD/CHUNK SWEEP ==='', ''1 | 4 | 120.5'',
                  ''===DECRYPTION THREAD/CHUNK SWEEP  ==='', ''9 | 9 | 9'', ''== end'',
                  ''=== DECRYPTION THREAD/CHUNK SWEEP ==='', ''1 | 4 | 150.0'', []] =
        pre @ marker dec_name @ join_lines [[], ''1 | 4 | 150.0''] @ post \<and>
      (\<forall>a c r. pre = a @ c \<and> c \<noteq> [] \<longrightarrow>
         c @ marker dec_name @ join_lines [[], ''1 | 4 | 150.0''] @ post \<noteq> marker dec_name @ r) \<and>
      (post = [] \<or> stop_eq_eol post) \<and>
      (\<forall>k<length (join_lines [[], ''1 | 4 | 150.0'']).
         \<not> stop_eq_eol (drop k (join_lines [[], ''1 | 4 | 150.0''] @ post))))"
proof -
  let ?inp = "join_lines [''=== ENCRYPTION THREAD/CHUNK SWEEP ==='', ''1 | 4 | 120.5'',
                  ''===DECRYPTION THREAD/CHUNK SWEEP  ==='', ''9 | 9 | 9'', ''== end'',
                  ''=== DECRYPTION THREAD/CHUNK SWEEP ==='', ''1 | 4 | 150.0'', []]"
  have n: "dec_name = enc_name \<or> dec_name = dec_name" by simp
  have a: "section_body (mylib_section_pat dec_name) ?inp = Some (Some (join_lines [[], ''9 | 9 | 9'', []]))"
    by code_simp
  have b: "section_body (test_section_pat dec_name) ?inp = Some (Some (join_lines [[], ''1 | 4 | 150.0'']))"
    by code_simp
  note t = C6_section_body[OF n, of ?inp]
  show ?thesis
    using n a b t[THEN conjunct1, unfolded a option.case] t[THEN conjunct2, unfolded b option.case]
    by (intro conjI)
qed

section \<open>Tables of the two operations\<close>






section \<open>A missing or empty section\<close>





section \<open>The reference tool's report\<close>














end
